theory Spec2Isabelle
  imports Complex_Main "HOL-Library.Word"
begin

section \<open>Gamma correction by table lookup (app.py, adjust_gamma)\<close>

text \<open>
  The function under study:
  \<^verbatim>\<open>
  def adjust_gamma(image, gamma=1.0):
      invGamma = 1.0 / gamma
      table = np.array([((i / 255.0) ** invGamma) * 255
                        for i in np.arange(0, 256)]).astype("uint8")
      return cv2.LUT(image, table)
  \<close>
  (The docstring, left out here, writes the formula with the exponent \<open>gamma\<close>; the
  code raises to \<open>1 / gamma\<close>.) Its arithmetic is binary64 arithmetic. The first part
  of this theory embeds the binary64 values and the three operations the function uses;
  the second part embeds the table, the lookup and the function itself.
\<close>

subsection \<open>Binary64 values and rounding\<close>

text \<open>
  A binary64 value is a finite real, an infinity or a NaN. The two zeros are not told
  apart: the program only ever produces the positive one (from \<open>0 / 255.0\<close> and from
  the underflow of a positive power).
\<close>

datatype f64 = Fin real | PInf | NInf | NaN

text \<open>Round to the nearest integer, a tie going to the even neighbour.\<close>

definition round_half_even :: "real \<Rightarrow> int" where
  "round_half_even x =
     (let f = \<lfloor>x\<rfloor> in
        if x - of_int f < 1 / 2 then f
        else if 1 / 2 < x - of_int f then f + 1
        else if even f then f else f + 1)"

text \<open>
  The binary exponent of a magnitude: the largest \<open>e\<close> of the eleven-bit exponent range
  with \<open>2 ^ e \<le> x\<close>, found by bisection from the smallest normal exponent \<open>-1022\<close>,
  which is also the exponent that the subnormal numbers share.
\<close>

fun expo_bisect :: "nat \<Rightarrow> int \<Rightarrow> real \<Rightarrow> int" where
  "expo_bisect 0 lo x = lo"
| "expo_bisect (Suc k) lo x =
     (if 2 powi (lo + 2 ^ k) \<le> x then expo_bisect k (lo + 2 ^ k) x
      else expo_bisect k lo x)"

definition expo :: "real \<Rightarrow> int" where
  "expo x = expo_bisect 11 (- 1022) \<bar>x\<bar>"

text \<open>
  The spacing of the binary64 numbers around \<open>x\<close> (53 significant bits), and \<open>x\<close>
  rounded to a multiple of it.
\<close>

definition quantum :: "real \<Rightarrow> real" where
  "quantum x = 2 powi (expo x - 52)"

definition rnd :: "real \<Rightarrow> real" where
  "rnd x = of_int (round_half_even (x / quantum x)) * quantum x"

text \<open>
  The binary64 result of an exact real result: rounded to nearest, ties to even, and an
  infinity once the rounded magnitude reaches \<open>2 ^ 1024\<close>.
\<close>

definition fl :: "real \<Rightarrow> f64" where
  "fl x = (let r = rnd x in
             if 2 powi 1024 \<le> r then PInf
             else if r \<le> - (2 powi 1024) then NInf
             else Fin r)"

subsection \<open>The three operations of the table expression\<close>

text \<open>
  Division and multiplication are the correctly rounded operations of IEEE 754, with its
  results at the infinities and NaN. A zero divisor gives an infinity or NaN here (the
  numpy behaviour, which only warns); Python's own float division raises instead, see
  \<open>py_truediv\<close>.
\<close>

fun f64_div :: "f64 \<Rightarrow> f64 \<Rightarrow> f64" where
  "f64_div (Fin x) (Fin y) =
     (if y \<noteq> 0 then fl (x / y)
      else if x = 0 then NaN else if 0 < x then PInf else NInf)"
| "f64_div (Fin x) PInf = Fin 0"
| "f64_div (Fin x) NInf = Fin 0"
| "f64_div PInf (Fin y) = (if 0 \<le> y then PInf else NInf)"
| "f64_div NInf (Fin y) = (if 0 \<le> y then NInf else PInf)"
| "f64_div _ _ = NaN"

fun f64_mul :: "f64 \<Rightarrow> f64 \<Rightarrow> f64" where
  "f64_mul (Fin x) (Fin y) = fl (x * y)"
| "f64_mul (Fin x) PInf = (if x = 0 then NaN else if 0 < x then PInf else NInf)"
| "f64_mul (Fin x) NInf = (if x = 0 then NaN else if 0 < x then NInf else PInf)"
| "f64_mul PInf (Fin y) = (if y = 0 then NaN else if 0 < y then PInf else NInf)"
| "f64_mul NInf (Fin y) = (if y = 0 then NaN else if 0 < y then NInf else PInf)"
| "f64_mul PInf PInf = PInf"
| "f64_mul PInf NInf = NInf"
| "f64_mul NInf PInf = NInf"
| "f64_mul NInf NInf = PInf"
| "f64_mul _ _ = NaN"

text \<open>
  The power is the \<open>pow\<close> of the C library, with the special values that C fixes. On
  ordinary arguments it is taken as correctly rounded: the library's result is within
  one unit in the last place of that, and equal to it wherever the exact power is itself
  a binary64 number.
\<close>

fun f64_pow :: "f64 \<Rightarrow> f64 \<Rightarrow> f64" where
  "f64_pow (Fin x) (Fin y) =
     (if y = 0 \<or> x = 1 then Fin 1
      else if x = 0 then (if 0 < y then Fin 0 else PInf)
      else if 0 < x then fl (x powr y)
      else if of_int \<lfloor>y\<rfloor> \<noteq> y then NaN
      else if even \<lfloor>y\<rfloor> then fl (\<bar>x\<bar> powr y)
      else fl (- (\<bar>x\<bar> powr y)))"
| "f64_pow (Fin x) PInf = (if \<bar>x\<bar> < 1 then Fin 0 else if \<bar>x\<bar> = 1 then Fin 1 else PInf)"
| "f64_pow (Fin x) NInf = (if \<bar>x\<bar> < 1 then PInf else if \<bar>x\<bar> = 1 then Fin 1 else Fin 0)"
| "f64_pow (Fin x) NaN = (if x = 1 then Fin 1 else NaN)"
| "f64_pow PInf (Fin y) = (if y = 0 then Fin 1 else if 0 < y then PInf else Fin 0)"
| "f64_pow NInf (Fin y) =
     (if y = 0 then Fin 1 else if y < 0 then Fin 0
      else if of_int \<lfloor>y\<rfloor> = y \<and> odd \<lfloor>y\<rfloor> then NInf else PInf)"
| "f64_pow NaN (Fin y) = (if y = 0 then Fin 1 else NaN)"
| "f64_pow PInf PInf = PInf"
| "f64_pow NInf PInf = PInf"
| "f64_pow PInf NInf = Fin 0"
| "f64_pow NInf NInf = Fin 0"
| "f64_pow _ _ = NaN"

text \<open>
  \<open>.astype("uint8")\<close> is the C conversion of a double to an unsigned char: the value
  is truncated toward zero, and the result is that integer when it fits. For every other
  value (an infinity, a NaN, a magnitude out of range) C leaves the result undefined and
  numpy returns whatever the platform does; \<open>ub\<close> stands for that platform's choice.
\<close>

definition trunc :: "real \<Rightarrow> int" where
  "trunc x = (if 0 \<le> x then \<lfloor>x\<rfloor> else \<lceil>x\<rceil>)"

fun astype_uint8 :: "(f64 \<Rightarrow> 8 word) \<Rightarrow> f64 \<Rightarrow> 8 word" where
  "astype_uint8 ub (Fin x) =
     (if - 1 < x \<and> x < 256 then word_of_int (trunc x) else ub (Fin x))"
| "astype_uint8 ub v = ub v"

subsection \<open>Errors, images, the table and the lookup\<close>

datatype error = ZeroDivisionError | cv2_error

text \<open>
  \<open>gamma\<close> is a Python float (the slider's value, or the default), so \<open>1.0 / gamma\<close>
  is Python's division: it raises on a zero divisor and is the IEEE division otherwise.
\<close>

definition py_truediv :: "f64 \<Rightarrow> f64 \<Rightarrow> error + f64" where
  "py_truediv a b = (if b = Fin 0 then Inl ZeroDivisionError else Inr (f64_div a b))"

text \<open>
  The arrays that reach \<open>adjust_gamma\<close>, by element type and shape: a 2-D array of
  unsigned bytes (what the application passes, after \<open>convert('L')\<close>), a 3-D array of
  unsigned bytes (rows of pixels of channel samples, a colour image), and a 2-D array of
  16-bit samples.
\<close>

datatype image =
    Gray8 "8 word list list"
  | Color8 "8 word list list list"
  | Gray16 "16 word list list"

text \<open>The expression \<open>((i / 255.0) ** invGamma) * 255\<close> for one \<open>i\<close>.\<close>

definition table_value :: "f64 \<Rightarrow> nat \<Rightarrow> f64" where
  "table_value invGamma i =
     f64_mul (f64_pow (f64_div (Fin (of_nat i)) (Fin 255)) invGamma) (Fin 255)"

text \<open>The list comprehension over \<open>np.arange(0, 256)\<close>, cast to bytes.\<close>

definition build_table :: "(f64 \<Rightarrow> 8 word) \<Rightarrow> f64 \<Rightarrow> 8 word list" where
  "build_table ub invGamma = map (\<lambda>i. astype_uint8 ub (table_value invGamma i)) [0..<256]"

text \<open>
  \<open>cv2.LUT(src, lut)\<close> is OpenCV's; by its contract \<open>src\<close> is an array of 8-bit
  elements with any number of channels, \<open>lut\<close> has 256 elements, and the result is a
  new array of the size and channels of \<open>src\<close> whose every element is the table entry
  at the source element. Any other \<open>src\<close> or \<open>lut\<close> fails its assertion.
\<close>

definition cv2_LUT :: "image \<Rightarrow> 8 word list \<Rightarrow> error + image" where
  "cv2_LUT src lut =
     (if length lut \<noteq> 256 then Inl cv2_error
      else case src of
        Gray8 px \<Rightarrow> Inr (Gray8 (map (map (\<lambda>p. lut ! unat p)) px))
      | Color8 px \<Rightarrow> Inr (Color8 (map (map (map (\<lambda>p. lut ! unat p))) px))
      | Gray16 px \<Rightarrow> Inl cv2_error)"

definition adjust_gamma :: "(f64 \<Rightarrow> 8 word) \<Rightarrow> image \<Rightarrow> f64 \<Rightarrow> error + image" where
  "adjust_gamma ub img gamma =
     (case py_truediv (Fin 1) gamma of
        Inl e \<Rightarrow> Inl e
      | Inr invGamma \<Rightarrow> cv2_LUT img (build_table ub invGamma))"


subsection \<open>The call on a heap of arrays\<close>



section \<open>Properties of the arithmetic\<close>

subsection \<open>The exponent\<close>

lemma two_powi_less: "(2::real) powi a < 2 powi b \<longleftrightarrow> a < b"
proof
  assume l: "(2::real) powi a < 2 powi b"
  show "a < b"
  proof (rule ccontr)
    assume "\<not> a < b"
    then have "b \<le> a" by simp
    then have "(2::real) powi b \<le> 2 powi a" by (rule power_int_increasing) simp
    with l show False by simp
  qed
next
  assume "a < b"
  then show "(2::real) powi a < 2 powi b" by (rule power_int_strict_increasing) simp
qed

lemma two_powi_le: "(2::real) powi a \<le> 2 powi b \<longleftrightarrow> a \<le> b"
  using two_powi_less [of b a] by (simp only: not_less [symmetric])

lemma two_powi_pos: "0 < (2::real) powi a"
  by simp

lemma expo_bisect_range: "lo \<le> expo_bisect k lo x \<and> expo_bisect k lo x < lo + 2 ^ k"
proof (induction k arbitrary: lo)
  case 0
  show ?case by simp
next
  case (Suc k)
  from Suc [of lo] Suc [of "lo + 2 ^ k"] show ?case by auto
qed

lemma expo_bisect_upper:
  "x < 2 powi (lo + 2 ^ k) \<Longrightarrow> x < 2 powi (expo_bisect k lo x + 1)"
proof (induction k arbitrary: lo)
  case 0
  then show ?case by simp
next
  case (Suc k)
  show ?case
  proof (cases "2 powi (lo + 2 ^ k) \<le> x")
    case True
    have "x < 2 powi (lo + 2 ^ k + 2 ^ k)" using Suc.prems by (simp add: algebra_simps)
    from Suc.IH [OF this] True show ?thesis by simp
  next
    case False
    then have "x < 2 powi (lo + 2 ^ k)" by simp
    from Suc.IH [OF this] False show ?thesis by simp
  qed
qed

lemma expo_bisect_lower:
  "expo_bisect k lo x = lo \<or> 2 powi (expo_bisect k lo x) \<le> x"
proof (induction k arbitrary: lo)
  case 0
  show ?case by simp
next
  case (Suc k)
  show ?case
  proof (cases "2 powi (lo + 2 ^ k) \<le> x")
    case True
    with Suc.IH [of "lo + 2 ^ k"] show ?thesis by auto
  next
    case False
    with Suc.IH [of lo] show ?thesis by auto
  qed
qed

lemma expo_ge: "- 1022 \<le> expo x"
  using expo_bisect_range [of "- 1022" 11 "\<bar>x\<bar>"] by (simp add: expo_def)

lemma expo_le: "expo x \<le> 1025"
  using expo_bisect_range [of "- 1022" 11 "\<bar>x\<bar>"] by (simp add: expo_def)

lemma expo_lower: "expo x = - 1022 \<or> 2 powi (expo x) \<le> \<bar>x\<bar>"
  using expo_bisect_lower [of 11 "- 1022" "\<bar>x\<bar>"] by (simp add: expo_def)

lemma expo_upper: "\<bar>x\<bar> < 2 powi 1026 \<Longrightarrow> \<bar>x\<bar> < 2 powi (expo x + 1)"
  using expo_bisect_upper [of "\<bar>x\<bar>" "- 1022" 11] by (simp add: expo_def)

lemma expo_eqI:
  assumes "2 powi e \<le> \<bar>x\<bar>" "\<bar>x\<bar> < 2 powi (e + 1)" "- 1022 \<le> e" "e \<le> 1025"
  shows "expo x = e"
proof -
  have "e + 1 \<le> 1026" using assms(4) by simp
  then have "(2::real) powi (e + 1) \<le> 2 powi 1026" by (simp only: two_powi_le)
  with assms(2) have "\<bar>x\<bar> < 2 powi 1026" by linarith
  then have up: "\<bar>x\<bar> < 2 powi (expo x + 1)" by (rule expo_upper)
  with assms(1) have "(2::real) powi e < 2 powi (expo x + 1)" by linarith
  then have a: "e \<le> expo x" by (simp only: two_powi_less)
  from expo_lower [of x] have "expo x \<le> e"
  proof
    assume "expo x = - 1022" with assms(3) show ?thesis by simp
  next
    assume "2 powi (expo x) \<le> \<bar>x\<bar>"
    with assms(2) have "(2::real) powi (expo x) < 2 powi (e + 1)" by linarith
    then show ?thesis by (simp only: two_powi_less)
  qed
  with a show ?thesis by simp
qed

lemma expo_bisect_mono: "x \<le> y \<Longrightarrow> expo_bisect k lo x \<le> expo_bisect k lo y"
proof (induction k arbitrary: lo)
  case 0
  show ?case by simp
next
  case (Suc k)
  show ?case
  proof (cases "2 powi (lo + 2 ^ k) \<le> x")
    case True
    with Suc.prems have "2 powi (lo + 2 ^ k) \<le> y" by linarith
    with True Suc.IH [OF Suc.prems, of "lo + 2 ^ k"] show ?thesis by simp
  next
    case False
    show ?thesis
    proof (cases "2 powi (lo + 2 ^ k) \<le> y")
      case True
      from expo_bisect_range [of lo k x] expo_bisect_range [of "lo + 2 ^ k" k y]
      have "expo_bisect k lo x \<le> expo_bisect k (lo + 2 ^ k) y" by linarith
      with True False show ?thesis by simp
    next
      case F2: False
      with False Suc.IH [OF Suc.prems, of lo] show ?thesis by simp
    qed
  qed
qed

lemma expo_mono: "\<bar>x\<bar> \<le> \<bar>y\<bar> \<Longrightarrow> expo x \<le> expo y"
  by (simp add: expo_def expo_bisect_mono)

subsection \<open>Rounding to an integer\<close>

lemma rhe_bounds: "\<lfloor>x\<rfloor> \<le> round_half_even x \<and> round_half_even x \<le> \<lfloor>x\<rfloor> + 1"
  by (simp add: round_half_even_def Let_def)


lemma rhe_near:
  assumes "\<bar>x - of_int k\<bar> < 1 / 2"
  shows "round_half_even x = k"
proof (cases "of_int k \<le> x")
  case True
  with assms have "\<lfloor>x\<rfloor> = k" by (intro floor_unique) linarith+
  with assms True show ?thesis by (simp add: round_half_even_def)
next
  case False
  with assms have "\<lfloor>x\<rfloor> = k - 1" by (intro floor_unique) (simp; linarith)+
  with assms False show ?thesis by (simp add: round_half_even_def)
qed

lemma rhe_of_int: "round_half_even (of_int k) = k"
  by (rule rhe_near) simp

lemma rhe_mono:
  assumes "x \<le> y"
  shows "round_half_even x \<le> round_half_even y"
proof (cases "\<lfloor>x\<rfloor> = \<lfloor>y\<rfloor>")
  case True
  with assms show ?thesis
    unfolding round_half_even_def Let_def by (auto; linarith)
next
  case False
  with assms have "\<lfloor>x\<rfloor> < \<lfloor>y\<rfloor>" using floor_mono [OF assms] by linarith
  with rhe_bounds [of x] rhe_bounds [of y] show ?thesis by linarith
qed

subsection \<open>Rounding to 53 bits\<close>

lemma quantum_pos: "0 < quantum x"
  by (simp add: quantum_def)

lemma rnd_zero: "rnd 0 = 0"
  by (simp add: rnd_def rhe_of_int [of 0, simplified])




lemma expo_two_powi:
  assumes "- 1022 \<le> e" "e \<le> 1025"
  shows "expo (2 powi e) = e"
proof (rule expo_eqI)
  have a: "\<bar>(2::real) powi e\<bar> = 2 powi e" by (simp only: abs_of_pos two_powi_pos)
  show "2 powi e \<le> \<bar>(2::real) powi e\<bar>" unfolding a by simp
  have "e < e + 1" by simp
  then show "\<bar>(2::real) powi e\<bar> < 2 powi (e + 1)" unfolding a by (simp only: two_powi_less)
qed (use assms in simp_all)

lemma expo_huge:
  assumes "2 powi 1025 \<le> \<bar>x\<bar>"
  shows "expo x = 1025"
proof -
  have "\<bar>(2::real) powi 1025\<bar> \<le> \<bar>x\<bar>" using assms by (simp only: abs_of_pos two_powi_pos)
  then have "expo (2 powi 1025) \<le> expo x" by (rule expo_mono)
  moreover have "expo ((2::real) powi 1025) = 1025" by (rule expo_two_powi) simp_all
  ultimately have "1025 \<le> expo x" by simp
  with expo_le [of x] show ?thesis by simp
qed

text \<open>Below the top of its binade a magnitude rounds to at most the next power of two.\<close>

lemma rnd_le_next:
  assumes "0 \<le> x" "x < 2 powi (expo x + 1)"
  shows "rnd x \<le> 2 powi (expo x + 1)"
proof -
  let ?q = "quantum x"
  have q: "0 < ?q" by (rule quantum_pos)
  have split: "(2::real) powi (expo x + 1) = of_int (2 ^ 53) * ?q"
    by (simp add: quantum_def power_int_diff power_int_add)
  have "x / ?q \<le> of_int (2 ^ 53)"
    using assms(2) q unfolding split by (simp add: field_simps)
  then have "round_half_even (x / ?q) \<le> round_half_even (of_int (2 ^ 53))"
    by (rule rhe_mono)
  then have "round_half_even (x / ?q) \<le> 2 ^ 53" by (simp only: rhe_of_int)
  then have "of_int (round_half_even (x / ?q)) \<le> (of_int (2 ^ 53) :: real)"
    by (simp only: of_int_le_iff)
  then have "of_int (round_half_even (x / ?q)) * ?q \<le> of_int (2 ^ 53) * ?q"
    using q by (intro mult_right_mono) simp_all
  then show ?thesis unfolding split rnd_def .
qed

lemma rnd_ge_binade:
  assumes "2 powi (expo x) \<le> x"
  shows "2 powi (expo x) \<le> rnd x"
proof -
  let ?q = "quantum x"
  have q: "0 < ?q" by (rule quantum_pos)
  have split: "(2::real) powi (expo x) = of_int (2 ^ 52) * ?q"
    by (simp add: quantum_def power_int_diff)
  have "of_int (2 ^ 52) \<le> x / ?q"
    using assms q unfolding split by (simp add: field_simps)
  then have "round_half_even (of_int (2 ^ 52)) \<le> round_half_even (x / ?q)"
    by (rule rhe_mono)
  then have "2 ^ 52 \<le> round_half_even (x / ?q)" by (simp only: rhe_of_int)
  then have "(of_int (2 ^ 52) :: real) \<le> of_int (round_half_even (x / ?q))"
    by (simp only: of_int_le_iff)
  then have "of_int (2 ^ 52) * ?q \<le> of_int (round_half_even (x / ?q)) * ?q"
    using q by (intro mult_right_mono) simp_all
  then show ?thesis unfolding split rnd_def .
qed

lemma rnd_mono:
  assumes "0 \<le> x" "x \<le> y"
  shows "rnd x \<le> rnd y"
proof -
  have le: "expo x \<le> expo y" using assms by (intro expo_mono) simp
  show ?thesis
  proof (cases "expo x = expo y")
    case True
    then have qq: "quantum x = quantum y" by (simp add: quantum_def)
    have "x / quantum y \<le> y / quantum y"
      using assms(2) quantum_pos [of y] by (intro divide_right_mono) simp_all
    then have "round_half_even (x / quantum y) \<le> round_half_even (y / quantum y)"
      by (rule rhe_mono)
    then show ?thesis
      using quantum_pos [of y] by (simp add: rnd_def qq)
  next
    case False
    with le have lt: "expo x < expo y" by simp
    have "\<bar>x\<bar> < 2 powi 1026"
    proof (rule ccontr)
      assume "\<not> \<bar>x\<bar> < 2 powi 1026"
      moreover have "(2::real) powi 1025 \<le> 2 powi 1026" by (simp only: two_powi_le)
      ultimately have "2 powi 1025 \<le> \<bar>x\<bar>" by linarith
      then have "expo x = 1025" by (rule expo_huge)
      with lt expo_le [of y] show False by simp
    qed
    then have "x < 2 powi (expo x + 1)" using expo_upper [of x] assms(1) by simp
    with assms(1) have a: "rnd x \<le> 2 powi (expo x + 1)" by (rule rnd_le_next)
    have b: "(2::real) powi (expo x + 1) \<le> 2 powi (expo y)"
      using lt by (simp only: two_powi_le)
    from lt expo_ge [of x] have "expo y \<noteq> - 1022" by simp
    with expo_lower [of y] assms have "2 powi (expo y) \<le> y" by simp
    then have "2 powi (expo y) \<le> rnd y" by (rule rnd_ge_binade)
    with a b show ?thesis by linarith
  qed
qed

lemma rnd_repr:
  assumes j: "- 1074 \<le> j" and m: "\<bar>m\<bar> < 2 ^ 53"
  shows "rnd (of_int m * 2 powi j) = of_int m * 2 powi j"
proof -
  define v :: real where "v = of_int m * 2 powi j"
  define e where "e = expo v"
  have absv: "\<bar>v\<bar> = of_int \<bar>m\<bar> * 2 powi j"
    by (simp add: v_def abs_mult)
  have le: "e - 52 \<le> j"
  proof (cases "e = - 1022")
    case True
    with j show ?thesis by simp
  next
    case False
    with expo_lower [of v] have "2 powi e \<le> \<bar>v\<bar>" by (simp add: e_def)
    also have "\<bar>v\<bar> < of_int (2 ^ 53) * 2 powi j"
      unfolding absv using m
      by (intro mult_strict_right_mono) (simp_all only: of_int_less_iff two_powi_pos)
    also have "of_int (2 ^ 53) * 2 powi j = (2::real) powi (53 + j)"
      by (simp add: power_int_add)
    finally have "e < 53 + j" by (simp only: two_powi_less)
    then show ?thesis by simp
  qed
  define n where "n = nat (j - (e - 52))"
  have "j = (e - 52) + int n" using le by (simp add: n_def)
  then have "(2::real) powi j = 2 powi ((e - 52) + int n)" by simp
  also have "\<dots> = 2 ^ n * 2 powi (e - 52)" by (simp add: power_int_add)
  finally have pw: "(2::real) powi j = 2 ^ n * 2 powi (e - 52)" .
  have qv: "quantum v = 2 powi (e - 52)" by (simp add: quantum_def e_def)
  have veq: "v = of_int (m * 2 ^ n) * 2 powi (e - 52)" by (simp add: v_def pw)
  have "v / 2 powi (e - 52) = of_int (m * 2 ^ n)" by (subst veq) simp
  then have "v / quantum v = of_int (m * 2 ^ n)" by (simp only: qv)
  then have "round_half_even (v / quantum v) = m * 2 ^ n"
    by (simp only: rhe_of_int)
  then have "rnd v = of_int (m * 2 ^ n) * quantum v"
    by (simp only: rnd_def)
  also have "\<dots> = v" unfolding qv by (rule veq [symmetric])
  finally show ?thesis by (simp only: v_def)
qed

lemma rnd_int:
  assumes "\<bar>m\<bar> < 2 ^ 53"
  shows "rnd (of_int m) = of_int m"
  using rnd_repr [of 0 m] assms by simp

lemma rnd_one: "rnd 1 = 1"
  using rnd_int [of 1] by simp

lemma rnd_255: "rnd 255 = 255"
  using rnd_int [of 255] by simp


subsection \<open>Finite results\<close>

lemma fl_Fin: "\<bar>rnd x\<bar> < 2 powi 1024 \<Longrightarrow> fl x = Fin (rnd x)"
  by (auto simp add: fl_def Let_def simp del: power_int_numeral)


lemma fl_zero: "fl 0 = Fin 0"
  by (rule fl_Fin [of 0, unfolded rnd_zero]) simp


subsection \<open>Evaluation at numerals\<close>

lemma expo_bisect_numeral:
  "expo_bisect (numeral n) lo x =
     (if 2 powi (lo + 2 ^ pred_numeral n) \<le> x
      then expo_bisect (pred_numeral n) (lo + 2 ^ pred_numeral n) x
      else expo_bisect (pred_numeral n) lo x)"
  by (simp add: numeral_eq_Suc)

text \<open>
  The rounding at some numbers whose binary64 values are well known: one tenth, the
  largest finite number and the first power of two beyond it, the smallest subnormal
  number and the tie below it.
\<close>

lemma fl_tenth: "fl (1 / 10) = Fin (3602879701896397 / 36028797018963968)"
  by (simp add: fl_def rnd_def quantum_def expo_def expo_bisect_numeral round_half_even_def)

lemma fl_largest: "fl ((2 ^ 53 - 1) * 2 powi 971) = Fin ((2 ^ 53 - 1) * 2 powi 971)"
  by (simp add: fl_def rnd_def quantum_def expo_def expo_bisect_numeral round_half_even_def)

lemma fl_overflow: "fl (2 powi 1024) = PInf"
  by (simp add: fl_def rnd_def quantum_def expo_def expo_bisect_numeral round_half_even_def)

lemma fl_smallest: "fl (2 powi (- 1074)) = Fin (2 powi (- 1074))"
  by (simp add: fl_def rnd_def quantum_def expo_def expo_bisect_numeral round_half_even_def)

lemma fl_underflow: "fl (2 powi (- 1075)) = Fin 0"
  by (simp add: fl_def rnd_def quantum_def expo_def expo_bisect_numeral round_half_even_def)

subsection \<open>The quotient i / 255.0\<close>



subsection \<open>The power with a positive exponent, on the unit interval\<close>

lemma one_less_huge: "(1::real) < 2 powi 1024"
  using two_powi_less [of 0 1024] by simp



lemma pow_one: "f64_pow (Fin 1) y = Fin 1"
  by (cases y) simp_all

subsection \<open>The table\<close>



lemma fl_255: "fl 255 = Fin 255"
proof -
  have "(255::real) < 2 powi 1024" using two_powi_less [of 8 1024] by simp
  then have "\<bar>rnd 255\<bar> < 2 powi 1024" by (simp only: rnd_255)
  then show ?thesis using fl_Fin [of 255] by (simp only: rnd_255)
qed

lemma fl_one: "fl 1 = Fin 1"
proof -
  have "\<bar>rnd 1\<bar> < 2 powi 1024" using one_less_huge by (simp only: rnd_one)
  then show ?thesis using fl_Fin [of 1] by (simp only: rnd_one)
qed

lemma table_value_0:
  "y = PInf \<or> (\<exists>r. y = Fin r \<and> 0 < r) \<Longrightarrow> table_value y 0 = Fin 0"
  by (auto simp add: table_value_def fl_zero)

lemma table_value_255: "table_value y 255 = Fin 255"
  by (simp add: table_value_def fl_one pow_one fl_255)


subsection \<open>Dividing by 255 and multiplying back\<close>





subsection \<open>The cast, the table as a list, and the lookup\<close>


lemma length_build_table: "length (build_table ub y) = 256"
  by (simp add: build_table_def)

lemma build_table_nth:
  "i < 256 \<Longrightarrow> build_table ub y ! i = astype_uint8 ub (table_value y i)"
  by (simp add: build_table_def)

lemma LUT_gray:
  "cv2_LUT (Gray8 px) (build_table ub y) =
     Inr (Gray8 (map (map (\<lambda>p. build_table ub y ! unat p)) px))"
  by (simp add: cv2_LUT_def length_build_table)





subsection \<open>Table entries and the result on an image of bytes\<close>






subsection \<open>Gamma 0, gamma -1 and gamma 2\<close>



lemma rnd_half: "rnd (1 / 2) = 1 / 2"
  using rnd_repr [of "- 1" 1] by simp

lemma fl_half: "fl (1 / 2) = Fin (1 / 2)"
proof -
  have "\<bar>rnd (1 / 2)\<bar> < 2 powi 1024" unfolding rnd_half using one_less_huge by simp
  then show ?thesis using fl_Fin [of "1 / 2"] by (simp only: rnd_half)
qed

lemma inv_gamma_two: "py_truediv (Fin 1) (Fin 2) = Inr (Fin (1 / 2))"
  by (simp add: py_truediv_def fl_half)

lemma rnd_between:
  assumes "0 \<le> a" "a \<le> x" "x \<le> b" "rnd a = a" "rnd b = b"
  shows "a \<le> rnd x \<and> rnd x \<le> b"
proof -
  have "rnd a \<le> rnd x" using assms(1,2) by (rule rnd_mono)
  moreover have "rnd x \<le> rnd b" using assms(1,2,3) by (intro rnd_mono) simp_all
  ultimately show ?thesis by (simp only: assms(4,5))
qed

text \<open>
  At gamma 2 the power is a square root. Bounds of the quotient, of its root and of the
  product by binary64 numbers carry through the three roundings.
\<close>

lemma sqrt_entry:
  assumes q: "0 < a" "a \<le> of_nat i / 255" "of_nat i / 255 \<le> b" "b < 1" "rnd a = a" "rnd b = b"
    and s: "0 \<le> sL" "sL\<^sup>2 \<le> a" "0 \<le> sU" "b \<le> sU\<^sup>2" "sU \<le> 1" "rnd sL = sL" "rnd sU = sU"
    and t: "0 \<le> tL" "tL \<le> sL * 255" "sU * 255 \<le> tU" "tU \<le> 255" "rnd tL = tL" "rnd tU = tU"
  shows "\<exists>w. table_value (Fin (1 / 2)) i = Fin w \<and> tL \<le> w \<and> w \<le> tU"
proof -
  define x where "x = rnd (of_nat i / 255)"
  have x: "a \<le> x" "x \<le> b" unfolding x_def using rnd_between [of a "of_nat i / 255" b] q by simp_all
  have xpos: "0 < x" "x < 1" using x q by simp_all
  have "x < 2 powi 1024" using xpos one_less_huge by simp
  with xpos have "\<bar>rnd (of_nat i / 255)\<bar> < 2 powi 1024" by (simp add: x_def)
  then have d: "f64_div (Fin (of_nat i)) (Fin 255) = Fin x" by (simp add: fl_Fin x_def)
  define v where "v = rnd (sqrt x)"
  have "sL \<le> sqrt x" using s(2) x(1) by (intro real_le_rsqrt) simp
  moreover have "sqrt x \<le> sU" using s(3,4) x(2) by (intro real_le_lsqrt) simp_all
  ultimately have v: "sL \<le> v" "v \<le> sU" unfolding v_def using rnd_between [of sL "sqrt x" sU] s by simp_all
  have "\<bar>rnd (sqrt x)\<bar> < 2 powi 1024" using v s one_less_huge by (simp add: v_def)
  then have "fl (sqrt x) = Fin v" by (simp add: fl_Fin v_def)
  then have p: "f64_pow (Fin x) (Fin (1 / 2)) = Fin v"
    using xpos by (simp add: powr_half_sqrt)
  define w where "w = rnd (v * 255)"
  have "tL \<le> v * 255" "v * 255 \<le> tU" using v t by simp_all
  then have w: "tL \<le> w" "w \<le> tU" unfolding w_def using rnd_between [of tL "v * 255" tU] t by simp_all
  have "(255::real) < 2 powi 1024" using two_powi_less [of 8 1024] by simp
  then have "\<bar>rnd (v * 255)\<bar> < 2 powi 1024" using w t by (simp add: w_def)
  then have "fl (v * 255) = Fin w" by (simp add: fl_Fin w_def)
  with d p w show ?thesis by (simp add: table_value_def)
qed

lemma table_two_128: "build_table ub (Fin (1 / 2)) ! 128 = 180"
proof -
  have r1: "rnd (257 / 512) = 257 / 512" using rnd_repr [of "- 9" 257] by simp
  have r2: "rnd (32897 / 65536) = 32897 / 65536" using rnd_repr [of "- 16" 32897] by simp
  have r3: "rnd (725 / 1024) = 725 / 1024" using rnd_repr [of "- 10" 725] by simp
  have r4: "rnd (363 / 512) = 363 / 512" using rnd_repr [of "- 9" 363] by simp
  have r5: "rnd 180 = 180" using rnd_int [of 180] by simp
  have r6: "rnd (1447 / 8) = 1447 / 8" using rnd_repr [of "- 3" 1447] by simp
  have "\<exists>w. table_value (Fin (1 / 2)) 128 = Fin w \<and> 180 \<le> w \<and> w \<le> 1447 / 8"
    by (rule sqrt_entry [where a = "257 / 512" and b = "32897 / 65536"
          and sL = "725 / 1024" and sU = "363 / 512"])
       (simp_all add: r1 r2 r3 r4 r5 r6 power2_eq_square)
  then obtain w where w: "table_value (Fin (1 / 2)) 128 = Fin w" "180 \<le> w" "w \<le> 1447 / 8"
    by blast
  have "\<lfloor>w\<rfloor> = 180" using w(2,3) by (intro floor_unique) simp_all
  then show ?thesis using w by (simp add: build_table_nth trunc_def)
qed

lemma table_two_64: "build_table ub (Fin (1 / 2)) ! 64 = 127"
proof -
  have r1: "rnd (65793 / 262144) = 65793 / 262144" using rnd_repr [of "- 18" 65793] by simp
  have r2: "rnd (32897 / 131072) = 32897 / 131072" using rnd_repr [of "- 17" 32897] by simp
  have r3: "rnd (513 / 1024) = 513 / 1024" using rnd_repr [of "- 10" 513] by simp
  have r4: "rnd (257 / 512) = 257 / 512" using rnd_repr [of "- 9" 257] by simp
  have r5: "rnd 127 = 127" using rnd_int [of 127] by simp
  have r6: "rnd (131071 / 1024) = 131071 / 1024" using rnd_repr [of "- 10" 131071] by simp
  have "\<exists>w. table_value (Fin (1 / 2)) 64 = Fin w \<and> 127 \<le> w \<and> w \<le> 131071 / 1024"
    by (rule sqrt_entry [where a = "65793 / 262144" and b = "32897 / 131072"
          and sL = "513 / 1024" and sU = "257 / 512"])
       (simp_all add: r1 r2 r3 r4 r5 r6 power2_eq_square)
  then obtain w where w: "table_value (Fin (1 / 2)) 64 = Fin w" "127 \<le> w" "w \<le> 131071 / 1024"
    by blast
  have "\<lfloor>w\<rfloor> = 127" using w(2,3) by (intro floor_unique) simp_all
  then show ?thesis using w by (simp add: build_table_nth trunc_def)
qed

lemma table_two_0: "build_table ub (Fin (1 / 2)) ! 0 = 0"
proof -
  have "table_value (Fin (1 / 2)) 0 = Fin 0"
    by (rule table_value_0, rule disjI2, rule exI [of _ "1 / 2"]) simp
  then show ?thesis by (simp add: build_table_nth trunc_def)
qed

lemma table_255: "build_table ub y ! 255 = 255"
  using table_value_255 [of y] by (simp add: build_table_nth trunc_def)

section \<open>The claims\<close>














text \<open>
  C8. For the 2 by 2 image \<open>[[0, 128], [255, 64]]\<close> and gamma 2.0 (so invGamma is
  0.5) the transform returns \<open>[[0, 180], [255, 127]]\<close>, which is the expected
  \<open>[[0, 180], [255, 128]]\<close> up to 1 per entry, and the table has 0 at 0 and 255 at
  255 exactly.
\<close>

theorem scenario_gamma_two:
  "adjust_gamma ub (Gray8 [[0, 128], [255, 64]]) (Fin 2) = Inr (Gray8 [[0, 180], [255, 127]])
   \<and> list_all2 (list_all2 (\<lambda>p e. \<bar>uint p - e\<bar> \<le> 1))
        [[0, 180], [255, 127 :: 8 word]] [[0, 180], [255, 128]]
   \<and> py_truediv (Fin 1) (Fin 2) = Inr (Fin (1 / 2))
   \<and> build_table ub (Fin (1 / 2)) ! 0 = 0
   \<and> build_table ub (Fin (1 / 2)) ! 255 = 255"
  by (simp add: adjust_gamma_def inv_gamma_two LUT_gray table_two_0 table_two_128
        table_two_64 table_255)





end
